theory Spec2Isabelle
  imports Main "HOL-Library.AList" "HOL-Library.Sublist"
begin

section \<open>Values of the registry document\<close>

text \<open>
  The registry is read with \<^verbatim>\<open>json.load\<close>, so a record field holds any JSON value.
  A Python float is kept as mantissa and binary exponent (\<open>Finite m e\<close> stands for
  \<open>m * 2 ^ e\<close>) or as one of the three special values accepted by the loader.
  A dictionary is an association list in insertion order; \<^verbatim>\<open>d[k] = v\<close> is
  \<open>AList.update\<close>, which replaces the value of a present key in place and appends an
  absent key at the end, as Python does. \<open>JNull\<close> is also Python's \<^verbatim>\<open>None\<close>.
\<close>

datatype pyfloat = Finite int int | PosInf | NegInf | NaN

datatype json =
    JNull
  | JBool bool
  | JInt int
  | JFloat pyfloat
  | JStr string
  | JArr "json list"
  | JObj "(string \<times> json) list"

type_synonym param = "(string \<times> json) list"

datatype exn =
    KeyError string
  | ValueError
  | TypeError
  | AttributeError
  | OverflowError

definition ID_UNASSIGNED :: int where
  "ID_UNASSIGNED = 255"

subsection \<open>Python built-ins used by the script\<close>

definition py_in :: "string \<Rightarrow> param \<Rightarrow> bool" where
  \<comment> \<open>\<^verbatim>\<open>k in d\<close> on a dictionary\<close>
  "py_in k d = (map_of d k \<noteq> None)"

definition py_getitem :: "param \<Rightarrow> string \<Rightarrow> exn + json" where
  \<comment> \<open>\<^verbatim>\<open>d[k]\<close>\<close>
  "py_getitem d k = (case map_of d k of None \<Rightarrow> Inl (KeyError k) | Some v \<Rightarrow> Inr v)"

definition py_get :: "param \<Rightarrow> string \<Rightarrow> json \<Rightarrow> json" where
  \<comment> \<open>\<^verbatim>\<open>d.get(k, default)\<close>; \<^verbatim>\<open>d.get(k)\<close> is \<open>py_get d k JNull\<close>\<close>
  "py_get d k dflt = (case map_of d k of None \<Rightarrow> dflt | Some v \<Rightarrow> v)"

text \<open>
  A character of a string stands for a code point below 256; a string with other code
  points is outside the model. Of these, \<^verbatim>\<open>int\<close> strips the six ASCII white space
  characters and, since it maps white space beyond ASCII to a blank first, the code
  points 0x85 and 0xA0; none beyond ASCII is a decimal digit. The separators 0x1C to
  0x1F are not stripped. The default limit of 4300 digits of CPython 3.11 is applied.
\<close>

definition is_space :: "char \<Rightarrow> bool" where
  "is_space c = (c \<in> set [CHR '' '', CHR 0x09, CHR 0x0A, CHR 0x0B, CHR 0x0C, CHR 0x0D,
                          CHR 0x85, CHR 0xA0])"

definition digit_of :: "char \<Rightarrow> nat option" where
  "digit_of c = (let n = (of_char c :: nat)
                 in if 48 \<le> n \<and> n \<le> 57 then Some (n - 48) else None)"

fun parse_digits :: "nat \<Rightarrow> bool \<Rightarrow> string \<Rightarrow> nat option" where
  \<comment> \<open>decimal digits, single underscores allowed between two digits\<close>
  "parse_digits acc after_digit [] = (if after_digit then Some acc else None)"
| "parse_digits acc after_digit (c # cs) =
     (if c = CHR ''_'' then (if after_digit then parse_digits acc False cs else None)
      else (case digit_of c of
              None \<Rightarrow> None
            | Some d \<Rightarrow> parse_digits (10 * acc + d) True cs))"

definition max_str_digits :: nat where
  "max_str_digits = 4300"

definition digits_within_limit :: "string \<Rightarrow> nat option" where
  \<comment> \<open>the digits after the sign; more than the limit of them raise as a malformed string does\<close>
  "digits_within_limit cs =
     (if length (filter (\<lambda>c. digit_of c \<noteq> None) cs) > max_str_digits then None
      else parse_digits 0 False cs)"

definition int_of_str :: "string \<Rightarrow> int option" where
  \<comment> \<open>\<^verbatim>\<open>int(s)\<close>: surrounding white space, an optional sign, digits; \<open>None\<close> is
      \<^verbatim>\<open>ValueError\<close>\<close>
  "int_of_str s =
     (let t = rev (dropWhile is_space (rev (dropWhile is_space s)))
      in case t of
           [] \<Rightarrow> None
         | c # cs \<Rightarrow>
             if c = CHR ''-'' then map_option (\<lambda>n. - int n) (digits_within_limit cs)
             else if c = CHR ''+'' then map_option int (digits_within_limit cs)
             else map_option int (digits_within_limit t))"

fun py_int :: "json \<Rightarrow> exn + int" where
  \<comment> \<open>\<^verbatim>\<open>int(v)\<close>\<close>
  "py_int (JInt n) = Inr n"
| "py_int (JBool b) = Inr (if b then 1 else 0)"
| "py_int (JFloat (Finite m e)) =
     Inr (if 0 \<le> e then m * 2 ^ nat e else sgn m * (\<bar>m\<bar> div 2 ^ nat (- e)))"
| "py_int (JFloat NaN) = Inl ValueError"
| "py_int (JFloat PosInf) = Inl OverflowError"
| "py_int (JFloat NegInf) = Inl OverflowError"
| "py_int (JStr s) = (case int_of_str s of None \<Rightarrow> Inl ValueError | Some n \<Rightarrow> Inr n)"
| "py_int JNull = Inl TypeError"
| "py_int (JArr xs) = Inl TypeError"
| "py_int (JObj kvs) = Inl TypeError"

fun py_eq_int :: "json \<Rightarrow> int \<Rightarrow> bool" where
  \<comment> \<open>\<^verbatim>\<open>v == k\<close> for an integer constant \<open>k\<close>\<close>
  "py_eq_int (JInt n) k = (n = k)"
| "py_eq_int (JBool b) k = ((if b then 1 else 0) = k)"
| "py_eq_int (JFloat (Finite m e)) k =
     (if 0 \<le> e then m * 2 ^ nat e = k else m = k * 2 ^ nat (- e))"
| "py_eq_int v k = False"

fun isinstance_int :: "json \<Rightarrow> bool" where
  \<comment> \<open>\<^verbatim>\<open>isinstance(v, int)\<close>; \<^verbatim>\<open>bool\<close> is a subclass of \<^verbatim>\<open>int\<close>\<close>
  "isinstance_int (JInt n) = True"
| "isinstance_int (JBool b) = True"
| "isinstance_int v = False"

fun truthy :: "json \<Rightarrow> bool" where
  "truthy JNull = False"
| "truthy (JBool b) = b"
| "truthy (JInt n) = (n \<noteq> 0)"
| "truthy (JFloat (Finite m e)) = (m \<noteq> 0)"
| "truthy (JFloat f) = True"
| "truthy (JStr s) = (s \<noteq> [])"
| "truthy (JArr xs) = (xs \<noteq> [])"
| "truthy (JObj kvs) = (kvs \<noteq> [])"

fun py_max :: "int list \<Rightarrow> exn + int" where
  \<comment> \<open>\<^verbatim>\<open>max(xs)\<close> raises on an empty sequence\<close>
  "py_max [] = Inl ValueError"
| "py_max (x # xs) = Inr (fold max xs x)"

fun counter_add :: "int \<Rightarrow> (int \<times> nat) list \<Rightarrow> (int \<times> nat) list" where
  "counter_add k [] = [(k, 1)]"
| "counter_add k ((k', c) # rest) =
     (if k' = k then (k', c + 1) # rest else (k', c) # counter_add k rest)"

definition Counter :: "int list \<Rightarrow> (int \<times> nat) list" where
  \<comment> \<open>\<^verbatim>\<open>collections.Counter(xs)\<close>: keys in order of first occurrence\<close>
  "Counter xs = foldl (\<lambda>c k. counter_add k c) [] xs"

section \<open>Reports\<close>

text \<open>
  A report line built by an f-string is kept as its pieces: the literal text and the
  values that Python formats into it.
\<close>

datatype frag = Lit string | Fmt json

datatype verdict = PASS | FAIL

type_synonym row = "frag list \<times> verdict"

type_synonym violation = "string \<times> string \<times> string"

datatype event =
    LoadError
  | SchemaLoadError
  | SchemaHeader
  | SchemaTable "violation list"
  | SchemaFailed
  | SchemaValidated
  | AddingDefault json json
  | AutoRenumber int
  | CustomHeader
  | CustomTable "row list"
  | CustomFail
  | CustomPass
  | ParamsDefined nat
  | HighestId int
  | Overwriting

record args =
  immediate_exit :: bool
  rewrite_default_access :: bool
  rewrite_auto_number_id :: bool

section \<open>Custom tests (lines 95 to 147 of validate\_params.py)\<close>

subsection \<open>Per-parameter tests: default access\<close>

definition default_access :: json where
  "default_access = JObj [(''dry'', JObj [(''read'', JBool True)]),
                          (''wet'', JObj [(''read'', JBool True)])]"

definition access_test :: "bool \<Rightarrow> param \<Rightarrow> exn + (param \<times> event list \<times> row list \<times> bool)" where
  \<comment> \<open>body of the loop at lines 102 to 109; both branches format id and description first\<close>
  "access_test rda p =
     (if \<not> py_in ''access'' p then
        (case py_getitem p ''id'' of
           Inl e \<Rightarrow> Inl e
         | Inr i \<Rightarrow>
            (case py_getitem p ''description'' of
               Inl e \<Rightarrow> Inl e
             | Inr d \<Rightarrow>
                 if rda
                 then Inr (AList.update ''access'' default_access p, [AddingDefault i d], [], True)
                 else Inr (p, [],
                           [([Lit ''No access specified for parameter '', Fmt i, Lit '':'', Fmt d],
                             FAIL)],
                           False)))
      else Inr (p, [], [], False))"

fun access_loop :: "bool \<Rightarrow> param list \<Rightarrow> event list \<times> (exn + (param list \<times> row list \<times> bool))" where
  \<comment> \<open>returns what was printed, and either the exception or the updated records, the
      rows appended and whether \<^verbatim>\<open>rewrite_data\<close> was set\<close>
  "access_loop rda [] = ([], Inr ([], [], False))"
| "access_loop rda (p # ps) =
     (case access_test rda p of
        Inl e \<Rightarrow> ([], Inl e)
      | Inr (p', ev, rows, rw) \<Rightarrow>
         (case access_loop rda ps of
            (evs, Inl e) \<Rightarrow> (ev @ evs, Inl e)
          | (evs, Inr (ps', rows', rw')) \<Rightarrow>
              (ev @ evs, Inr (p' # ps', rows @ rows', rw \<or> rw'))))"

subsection \<open>Collecting the ids (lines 116 to 127)\<close>

fun ids_try :: "param list \<Rightarrow> exn + int list" where
  \<comment> \<open>\<^verbatim>\<open>[int(param['id']) for param in data]\<close>\<close>
  "ids_try [] = Inr []"
| "ids_try (p # ps) =
     (case py_getitem p ''id'' of
        Inl e \<Rightarrow> Inl e
      | Inr v \<Rightarrow>
         (case py_int v of
            Inl e \<Rightarrow> Inl e
          | Inr n \<Rightarrow> (case ids_try ps of Inl e \<Rightarrow> Inl e | Inr ns \<Rightarrow> Inr (n # ns))))"

definition id_invalid :: "param \<Rightarrow> bool" where
  \<comment> \<open>\<^verbatim>\<open>'id' not in param or not isinstance(param['id'], int)\<close>\<close>
  "id_invalid p = (case map_of p ''id'' of None \<Rightarrow> True | Some v \<Rightarrow> \<not> isinstance_int v)"

definition invalid_row :: "param \<Rightarrow> row" where
  "invalid_row p =
     ([Lit '' -- Invalid ID in '', Fmt (py_get p ''id'' JNull), Lit '':'',
       Fmt (py_get p ''name'' JNull), Lit '' ('', Fmt (py_get p ''description'' JNull), Lit '')''],
      FAIL)"

definition clean_id :: "param \<Rightarrow> int" where
  \<comment> \<open>\<^verbatim>\<open>int(param['id'])\<close> on a record kept by the clean-up: an int or a bool\<close>
  "clean_id p = (case map_of p ''id'' of
                   Some (JInt n) \<Rightarrow> n
                 | Some (JBool b) \<Rightarrow> (if b then 1 else 0)
                 | _ \<Rightarrow> 0)"

definition collect_ids :: "param list \<Rightarrow> int list \<times> row list \<times> bool \<times> param list" where
  \<comment> \<open>returns \<^verbatim>\<open>ids\<close>, the rows appended, \<^verbatim>\<open>custom_pass\<close> and \<^verbatim>\<open>cleaned_data\<close>;
      the bare \<^verbatim>\<open>except\<close> catches every exception of the first comprehension\<close>
  "collect_ids data =
     (case ids_try data of
        Inr ids \<Rightarrow> (ids, [], True, [])
      | Inl e \<Rightarrow>
          (let cleaned_data = filter (\<lambda>p. \<not> id_invalid p) data
           in (map clean_id cleaned_data,
               ([Lit ''Invalid ID in parameter, should result in schema fail above''], FAIL)
                 # map invalid_row (filter id_invalid data),
               False,
               cleaned_data)))"

subsection \<open>Automatic numbering (lines 129 to 139)\<close>

fun renumber :: "int \<Rightarrow> param list \<Rightarrow> exn + param list" where
  \<comment> \<open>the loop at lines 135 to 138, over \<^verbatim>\<open>data\<close>, with \<^verbatim>\<open>last_id\<close> as first argument\<close>
  "renumber last_id [] = Inr []"
| "renumber last_id (p # ps) =
     (case py_getitem p ''id'' of
        Inl e \<Rightarrow> Inl e
      | Inr v \<Rightarrow>
          if py_eq_int v ID_UNASSIGNED
          then (case renumber (last_id + 1) ps of
                  Inl e \<Rightarrow> Inl e
                | Inr ps' \<Rightarrow> Inr (AList.update ''id'' (JInt last_id) p # ps'))
          else (case renumber last_id ps of
                  Inl e \<Rightarrow> Inl e
                | Inr ps' \<Rightarrow> Inr (p # ps')))"

definition auto_number ::
  "bool \<Rightarrow> int list \<Rightarrow> param list \<Rightarrow> event list \<times> (exn + ((int \<times> nat) list \<times> param list \<times> bool))" where
  \<comment> \<open>returns what was printed, and either the exception or \<^verbatim>\<open>id_counts\<close>, the
      records and whether \<^verbatim>\<open>rewrite_data\<close> was set\<close>
  "auto_number auto ids data =
     (let id_counts = Counter ids
      in if auto \<and> ID_UNASSIGNED \<in> set (map fst id_counts) then
           (let id_counts' = AList.delete ID_UNASSIGNED id_counts
            in case py_max (map fst id_counts') of
                 Inl e \<Rightarrow> ([], Inl e)
               | Inr m \<Rightarrow>
                  (case renumber (m + 1) data of
                     Inl e \<Rightarrow> ([AutoRenumber (m + 1)], Inl e)
                   | Inr data' \<Rightarrow> ([AutoRenumber (m + 1)], Inr (id_counts', data', True))))
         else ([], Inr (id_counts, data, False)))"

subsection \<open>Duplicate ids (lines 141 to 147)\<close>

definition id_duplicates :: "(int \<times> nat) list \<Rightarrow> int list" where
  "id_duplicates id_counts = map fst (filter (\<lambda>(i, count). count > 1) id_counts)"

definition duplicate_row :: "int \<Rightarrow> row" where
  "duplicate_row d = ([Lit ''Duplicate ID '', Fmt (JInt d)], FAIL)"

definition pass_row :: row where
  "pass_row = ([Lit ''Duplicate IDs''], PASS)"

definition duplicate_rows :: "(int \<times> nat) list \<Rightarrow> bool \<Rightarrow> row list" where
  \<comment> \<open>second argument: \<^verbatim>\<open>custom_pass\<close> on entry\<close>
  "duplicate_rows id_counts custom_pass =
     map duplicate_row (id_duplicates id_counts)
     @ (if custom_pass \<and> id_duplicates id_counts = [] then [pass_row] else [])"

definition invariant_checker ::
  "bool \<Rightarrow> param list \<Rightarrow> event list \<times> (exn + (param list \<times> row list \<times> bool))" where
  \<comment> \<open>lines 113 to 147: id collection, automatic numbering, duplicate detection\<close>
  "invariant_checker auto data =
     (case collect_ids data of
        (ids, rows2, custom_pass, cleaned_data) \<Rightarrow>
          (case auto_number auto ids data of
             (ev, Inl e) \<Rightarrow> (ev, Inl e)
           | (ev, Inr (id_counts, data', rw)) \<Rightarrow>
               (ev, Inr (data', rows2 @ duplicate_rows id_counts custom_pass, rw))))"

definition custom_tests ::
  "args \<Rightarrow> param list \<Rightarrow> event list \<times> (exn + (param list \<times> row list \<times> bool))" where
  \<comment> \<open>lines 96 to 147; returns the records, \<^verbatim>\<open>custom_test_rows\<close> and \<^verbatim>\<open>rewrite_data\<close>\<close>
  "custom_tests a data =
     (case access_loop (rewrite_default_access a) data of
        (ev1, Inl e) \<Rightarrow> (ev1, Inl e)
      | (ev1, Inr (data1, rows1, rw1)) \<Rightarrow>
          (case invariant_checker (rewrite_auto_number_id a) data1 of
             (ev2, Inl e) \<Rightarrow> (ev1 @ ev2, Inl e)
           | (ev2, Inr (data2, rows2, rw2)) \<Rightarrow>
               (ev1 @ ev2, Inr (data2, rows1 @ rows2, rw1 \<or> rw2))))"

section \<open>The run (lines 57 to 173)\<close>

text \<open>
  The run is modelled for a registry document whose \<^verbatim>\<open>'all'\<close> entry is a list of
  objects, up to the sort that precedes the emitters. The schema validator is external:
  its sorted list of errors on the registry is an argument of the run.
\<close>

datatype outcome = Completed | SysExit nat | Uncaught exn

text \<open>
  \<open>written\<close> is what lines 168 to 171 write to the registry file, \<open>emit\<close> the sorted
  list that line 173 leaves for the emitters, which run after both.
\<close>

record run =
  outcome :: outcome
  stdout :: "event list"
  written :: "param list option"
  emit :: "param list option"

definition any_fail :: "row list \<Rightarrow> bool" where
  \<comment> \<open>\<^verbatim>\<open>any(row[1] == "FAIL" for row in custom_test_rows)\<close>\<close>
  "any_fail rows = (\<exists>r \<in> set rows. snd r = FAIL)"

definition finish :: "bool \<Rightarrow> bool \<Rightarrow> param list \<Rightarrow> event list \<Rightarrow> run" where
  \<comment> \<open>lines 161 to 173; the last field is the sorted list handed to the emitters\<close>
  "finish overall_pass rewrite_data data out =
     (if overall_pass then
        (case ids_try data of
           Inl e \<Rightarrow> \<lparr>outcome = Uncaught e, stdout = out, written = None, emit = None\<rparr>
         | Inr ids \<Rightarrow>
            (case py_max ids of
               Inl e \<Rightarrow> \<lparr>outcome = Uncaught e, stdout = out @ [ParamsDefined (length ids)],
                         written = None, emit = None\<rparr>
             | Inr m \<Rightarrow>
                 \<lparr>outcome = Completed,
                  stdout = out @ [ParamsDefined (length ids), HighestId m]
                           @ (if rewrite_data then [Overwriting] else []),
                  written = (if rewrite_data then Some data else None),
                  emit = Some (map snd (sort_key fst (zip ids data)))\<rparr>))
      else \<lparr>outcome = SysExit 1, stdout = out, written = None, emit = None\<rparr>)"

definition main :: "args \<Rightarrow> param list option \<Rightarrow> violation list option \<Rightarrow> run" where
  \<comment> \<open>second argument: the list under \<^verbatim>\<open>'all'\<close> of the registry file, \<open>None\<close> when loading
      raised; third argument: the sorted errors of the schema validator on that list,
      \<open>None\<close> when the schema file could not be loaded\<close>
  "main a loaded validated =
     (case loaded of
        None \<Rightarrow> \<lparr>outcome = SysExit 1, stdout = [LoadError], written = None, emit = None\<rparr>
      | Some data \<Rightarrow>
         (case validated of
            None \<Rightarrow> \<lparr>outcome = SysExit 1, stdout = [SchemaLoadError], written = None, emit = None\<rparr>
          | Some error_rows \<Rightarrow>
             (let out1 = SchemaHeader #
                     (if error_rows \<noteq> [] then [SchemaTable error_rows, SchemaFailed]
                      else [SchemaValidated])
              in if error_rows \<noteq> [] \<and> immediate_exit a
                 then \<lparr>outcome = SysExit 1, stdout = out1, written = None, emit = None\<rparr>
                 else
                   (case custom_tests a data of
                      (ev, Inl e) \<Rightarrow>
                        \<lparr>outcome = Uncaught e, stdout = out1 @ ev, written = None, emit = None\<rparr>
                    | (ev, Inr (data', rows, rewrite_data)) \<Rightarrow>
                        (let out2 = out1 @ ev @ [CustomHeader, CustomTable rows]
                         in if any_fail rows then
                              (if immediate_exit a
                               then \<lparr>outcome = SysExit 1, stdout = out2, written = None,
                                     emit = None\<rparr>
                               else finish False rewrite_data data' (out2 @ [CustomFail]))
                            else finish (error_rows = []) rewrite_data data'
                                   (out2 @ [CustomPass]))))))"

section \<open>Access cells of the CSV export (lines 251 to 263)\<close>

fun dict_get :: "json \<Rightarrow> string \<Rightarrow> json \<Rightarrow> exn + json" where
  \<comment> \<open>\<^verbatim>\<open>x.get(k, default)\<close> on an arbitrary value: only a dictionary has \<^verbatim>\<open>get\<close>\<close>
  "dict_get (JObj kvs) k dflt = Inr (py_get kvs k dflt)"
| "dict_get v k dflt = Inl AttributeError"

fun contains :: "string \<Rightarrow> json \<Rightarrow> exn + bool" where
  \<comment> \<open>\<^verbatim>\<open>k in x\<close> for a string \<open>k\<close>\<close>
  "contains k (JObj kvs) = Inr (py_in k kvs)"
| "contains k (JArr xs) = Inr (JStr k \<in> set xs)"
| "contains k (JStr s) = Inr (sublist k s)"
| "contains k v = Inl TypeError"

fun subscript :: "json \<Rightarrow> string \<Rightarrow> exn + json" where
  \<comment> \<open>\<^verbatim>\<open>x[k]\<close> for a string \<open>k\<close>\<close>
  "subscript (JObj kvs) k = py_getitem kvs k"
| "subscript v k = Inl TypeError"

definition access_set :: "param \<Rightarrow> string \<Rightarrow> string \<Rightarrow> exn + bool" where
  \<comment> \<open>the condition at line 255\<close>
  "access_set p iface dir =
     (case dict_get (py_get p ''access'' (JObj [])) iface (JObj []) of
        Inl e \<Rightarrow> Inl e
      | Inr x \<Rightarrow>
         (case contains dir x of
            Inl e \<Rightarrow> Inl e
          | Inr False \<Rightarrow> Inr False
          | Inr True \<Rightarrow>
             (case py_getitem p ''access'' of
                Inl e \<Rightarrow> Inl e
              | Inr a \<Rightarrow>
                 (case subscript a iface of
                    Inl e \<Rightarrow> Inl e
                  | Inr y \<Rightarrow>
                     (case subscript y dir of
                        Inl e \<Rightarrow> Inl e
                      | Inr v \<Rightarrow> Inr (truthy v))))))"

definition dry_flag :: "param \<Rightarrow> string \<Rightarrow> exn + bool" where
  \<comment> \<open>\<^verbatim>\<open>p['access']['dry'].get(flag, False)\<close> taken as a condition\<close>
  "dry_flag p flag =
     (case py_getitem p ''access'' of
        Inl e \<Rightarrow> Inl e
      | Inr a \<Rightarrow>
         (case subscript a ''dry'' of
            Inl e \<Rightarrow> Inl e
          | Inr d \<Rightarrow>
             (case dict_get d flag (JBool False) of
                Inl e \<Rightarrow> Inl e
              | Inr v \<Rightarrow> Inr (truthy v))))"

definition access_cell :: "param \<Rightarrow> string \<Rightarrow> string \<Rightarrow> exn + string" where
  \<comment> \<open>one pass of the inner loop body, lines 255 to 263, for \<^verbatim>\<open>access[iface][dir]\<close>\<close>
  "access_cell p iface dir =
     (case access_set p iface dir of
        Inl e \<Rightarrow> Inl e
      | Inr False \<Rightarrow> Inr ''''
      | Inr True \<Rightarrow>
         (case dry_flag p (dir @ ''_option'') of
            Inl e \<Rightarrow> Inl e
          | Inr opt \<Rightarrow>
             (case dry_flag p (dir @ ''_auth'') of
                Inl e \<Rightarrow> Inl e
              | Inr auth \<Rightarrow>
                 (let c = (if opt then ''Opt '' else '''') @ (if auth then ''Auth'' else '''')
                  in Inr (if length c = 0 then ''Yes'' else c)))))"

record access_cells =
  dry_read :: string
  dry_write :: string
  wet_read :: string
  wet_write :: string

definition csv_access :: "param \<Rightarrow> exn + access_cells" where
  \<comment> \<open>the loops at lines 253 and 254: directions outside, interfaces inside\<close>
  "csv_access p =
     (case access_cell p ''dry'' ''read'' of Inl e \<Rightarrow> Inl e | Inr dr \<Rightarrow>
      (case access_cell p ''wet'' ''read'' of Inl e \<Rightarrow> Inl e | Inr wr \<Rightarrow>
       (case access_cell p ''dry'' ''write'' of Inl e \<Rightarrow> Inl e | Inr dw \<Rightarrow>
        (case access_cell p ''wet'' ''write'' of Inl e \<Rightarrow> Inl e | Inr ww \<Rightarrow>
           Inr \<lparr>dry_read = dr, dry_write = dw, wet_read = wr, wet_write = ww\<rparr>))))"

section \<open>Notions used to state the properties\<close>

definition all_int_ids :: "param list \<Rightarrow> bool" where
  \<comment> \<open>every record has an \<^verbatim>\<open>id\<close> and it is a JSON integer\<close>
  "all_int_ids data =
     list_all (\<lambda>p. case map_of p ''id'' of Some (JInt n) \<Rightarrow> True | _ \<Rightarrow> False) data"

definition record_ids :: "param list \<Rightarrow> int list" where
  \<comment> \<open>the list \<^verbatim>\<open>ids\<close> as lines 116 to 127 leave it\<close>
  "record_ids data = fst (collect_ids data)"

definition new_ids :: "int list \<Rightarrow> int list \<Rightarrow> int list" where
  \<comment> \<open>the ids after the repair of the records whose id was the sentinel, in record order\<close>
  "new_ids ids ids' = map snd (filter (\<lambda>(i, i'). i = ID_UNASSIGNED) (zip ids ids'))"

definition used_max :: "int list \<Rightarrow> int" where
  \<comment> \<open>the largest id that is not the sentinel\<close>
  "used_max ids = Max (set (filter (\<lambda>i. i \<noteq> ID_UNASSIGNED) ids))"

definition fill_access :: "bool \<Rightarrow> param \<Rightarrow> param" where
  "fill_access rda p =
     (if rda \<and> \<not> py_in ''access'' p then AList.update ''access'' default_access p else p)"

definition no_access_row :: "param \<Rightarrow> row" where
  "no_access_row p =
     ([Lit ''No access specified for parameter '', Fmt (py_get p ''id'' JNull), Lit '':'',
       Fmt (py_get p ''description'' JNull)], FAIL)"

definition needs_persist :: "args \<Rightarrow> param list \<Rightarrow> bool" where
  \<comment> \<open>when \<^verbatim>\<open>rewrite_data\<close> is set: the backfill filled a record, or the
      automatic numbering branch was entered\<close>
  "needs_persist a data =
     ((rewrite_default_access a \<and> (\<exists>p \<in> set data. \<not> py_in ''access'' p))
      \<or> (rewrite_auto_number_id a \<and> ID_UNASSIGNED \<in> set (record_ids data)))"

definition all_custom_rows :: "args \<Rightarrow> param list \<Rightarrow> row list" where
  \<comment> \<open>the rows of all custom tests on a registry: one for every record without access
      (unless the backfill is on), the rows of the id check on every record, and one
      for every duplicated id; the immediate-exit flag does not occur\<close>
  "all_custom_rows a data =
     (if rewrite_default_access a then []
      else map no_access_row (filter (\<lambda>p. \<not> py_in ''access'' p) data))
     @ fst (snd (collect_ids data))
     @ duplicate_rows
         (if rewrite_auto_number_id a \<and> ID_UNASSIGNED \<in> set (record_ids data)
          then AList.delete ID_UNASSIGNED (Counter (record_ids data))
          else Counter (record_ids data))
         (fst (snd (snd (collect_ids data))))"

definition seen :: "(int \<times> nat) list \<Rightarrow> int \<Rightarrow> nat" where
  \<comment> \<open>the count a counter holds for a key, 0 for an absent key\<close>
  "seen c x = (case map_of c x of None \<Rightarrow> 0 | Some n \<Rightarrow> n)"

lemmas run_defs = main_def custom_tests_def invariant_checker_def collect_ids_def auto_number_def
  access_test_def py_in_def py_getitem_def py_get_def Counter_def ID_UNASSIGNED_def
  duplicate_rows_def id_duplicates_def duplicate_row_def pass_row_def any_fail_def finish_def
  id_invalid_def invalid_row_def clean_id_def default_access_def

section \<open>The counter and the maximum\<close>
lemma counter_add_keys: "fst ` set (counter_add k c) = insert k (fst ` set c)"
  by (induction k c rule: counter_add.induct) auto

lemma Counter_keys_aux: "fst ` set (foldl (\<lambda>c k. counter_add k c) acc xs) = fst ` set acc \<union> set xs"
  by (induction xs arbitrary: acc) (auto simp: counter_add_keys)

lemma Counter_keys: "fst ` set (Counter xs) = set xs"
  by (simp add: Counter_def Counter_keys_aux)

lemma delete_key_set: "fst ` set (AList.delete k al) = fst ` set al - {k}"
  by (auto simp: AList.delete_eq image_iff)

lemma py_max_Max:
  assumes "xs \<noteq> []"
  shows "py_max xs = Inr (Max (set xs))"
proof (cases xs)
  case Nil
  with assms show ?thesis by simp
next
  case (Cons a list)
  then show ?thesis using Max.set_eq_fold[of a list] by simp
qed

lemma counter_add_distinct:
  "distinct (map fst c) \<Longrightarrow> distinct (map fst (counter_add k c))"
proof (induction k c rule: counter_add.induct)
  case (1 k)
  show ?case by simp
next
  case (2 k k' c rest)
  have "fst ` set (counter_add k rest) = insert k (fst ` set rest)" by (rule counter_add_keys)
  with 2 show ?case by auto
qed

lemma counter_add_map_of:
  "map_of (counter_add k c) x
     = (if x = k then Some (case map_of c k of None \<Rightarrow> 1 | Some n \<Rightarrow> n + 1) else map_of c x)"
  by (induction k c rule: counter_add.induct) auto

lemma Counter_distinct_aux:
  "distinct (map fst acc) \<Longrightarrow> distinct (map fst (foldl (\<lambda>c k. counter_add k c) acc xs))"
  by (induction xs arbitrary: acc) (simp_all add: counter_add_distinct)

lemma seen_counter_add: "seen (counter_add k c) x = (if x = k then seen c x + 1 else seen c x)"
  by (simp add: seen_def counter_add_map_of split: option.splits)

lemma seen_foldl:
  "seen (foldl (\<lambda>c k. counter_add k c) acc xs) x = seen acc x + count_list xs x"
  by (induction xs arbitrary: acc) (simp_all add: seen_counter_add)

lemma Counter_distinct: "distinct (map fst (Counter xs))"
  using Counter_distinct_aux[of "[]" xs] by (simp add: Counter_def)

lemma seen_Counter: "seen (Counter xs) x = count_list xs x"
  using seen_foldl[of "[]" xs x] by (simp add: Counter_def seen_def)

lemma Counter_mem:
  "(k, c) \<in> set (Counter xs) \<longleftrightarrow> k \<in> set xs \<and> c = count_list xs k"
proof
  assume m: "(k, c) \<in> set (Counter xs)"
  then have "map_of (Counter xs) k = Some c"
    using Counter_distinct[of xs] by simp
  then have "seen (Counter xs) k = c" by (simp add: seen_def)
  then have c: "c = count_list xs k" by (simp add: seen_Counter)
  from m have "k \<in> fst ` set (Counter xs)" by force
  then have "k \<in> set xs" by (simp add: Counter_keys)
  with c show "k \<in> set xs \<and> c = count_list xs k" by simp
next
  assume a: "k \<in> set xs \<and> c = count_list xs k"
  then have "k \<in> fst ` set (Counter xs)" by (simp add: Counter_keys)
  then obtain c' where m: "(k, c') \<in> set (Counter xs)" by force
  then have "map_of (Counter xs) k = Some c'"
    using Counter_distinct[of xs] by simp
  then have "seen (Counter xs) k = c'" by (simp add: seen_def)
  then have "c' = count_list xs k" by (simp add: seen_Counter)
  with a m show "(k, c) \<in> set (Counter xs)" by simp
qed

lemma id_duplicates_distinct: "distinct (map fst c) \<Longrightarrow> distinct (id_duplicates c)"
  unfolding id_duplicates_def by (rule distinct_map_filter)

lemma id_duplicates_mem:
  "v \<in> set (id_duplicates c) \<longleftrightarrow> (\<exists>n. (v, n) \<in> set c \<and> n > 1)"
  by (force simp: id_duplicates_def)

lemma id_duplicates_Counter:
  "v \<in> set (id_duplicates (Counter xs)) \<longleftrightarrow> count_list xs v > 1"
proof -
  have "count_list xs v > 1 \<Longrightarrow> v \<in> set xs"
    using count_notin[of v xs] by (cases "v \<in> set xs") simp_all
  then show ?thesis by (auto simp: id_duplicates_mem Counter_mem)
qed

lemma delete_mem: "(k, c) \<in> set (AList.delete s al) \<longleftrightarrow> (k, c) \<in> set al \<and> k \<noteq> s"
  by (auto simp: AList.delete_eq)

lemma id_duplicates_delete_Counter:
  "v \<in> set (id_duplicates (AList.delete s (Counter xs))) \<longleftrightarrow> v \<noteq> s \<and> count_list xs v > 1"
proof -
  have "count_list xs v > 1 \<Longrightarrow> v \<in> set xs"
    using count_notin[of v xs] by (cases "v \<in> set xs") simp_all
  then show ?thesis by (auto simp: id_duplicates_mem Counter_mem delete_mem)
qed

lemma distinct_count:
  "distinct xs \<Longrightarrow> count_list xs x = (if x \<in> set xs then 1 else 0)"
  by (induction xs) auto

lemma duplicate_rows_count:
  assumes "distinct (id_duplicates c)"
  shows "count_list (duplicate_rows c cp) (duplicate_row v)
           = (if v \<in> set (id_duplicates c) then 1 else 0)"
proof -
  have inj: "inj duplicate_row" by (simp add: inj_def duplicate_row_def)
  have "count_list (map duplicate_row (id_duplicates c)) (duplicate_row v)
          = count_list (id_duplicates c) v"
    by (rule count_list_map_conv[OF inj])
  moreover have "count_list (id_duplicates c) v = (if v \<in> set (id_duplicates c) then 1 else 0)"
    using assms by (rule distinct_count)
  ultimately show ?thesis
    by (simp add: duplicate_rows_def pass_row_def duplicate_row_def)
qed

lemma duplicate_rows_pass:
  "count_list (duplicate_rows c cp) pass_row = (if cp \<and> id_duplicates c = [] then 1 else 0)"
proof -
  have "pass_row \<notin> set (map duplicate_row (id_duplicates c))"
    by (auto simp: pass_row_def duplicate_row_def)
  then have "count_list (map duplicate_row (id_duplicates c)) pass_row = 0"
    by (rule count_notin)
  then show ?thesis by (simp add: duplicate_rows_def)
qed

section \<open>Automatic numbering on integer ids\<close>

lemma all_int_ids_Cons:
  "all_int_ids (p # ps) \<longleftrightarrow> (\<exists>n. map_of p ''id'' = Some (JInt n)) \<and> all_int_ids ps"
  by (auto simp: all_int_ids_def split: option.splits json.splits)

lemma ids_try_all_int: "all_int_ids data \<Longrightarrow> ids_try data = Inr (map clean_id data)"
  by (induction data) (auto simp: all_int_ids_Cons py_getitem_def clean_id_def)

lemma record_ids_all_int: "all_int_ids data \<Longrightarrow> record_ids data = map clean_id data"
  by (simp add: record_ids_def collect_ids_def ids_try_all_int)

lemma clean_id_update: "clean_id (AList.update ''id'' (JInt l) p) = l"
  by (simp add: clean_id_def update_conv')

lemma renumber_all_int:
  "all_int_ids data \<Longrightarrow>
   \<exists>data'. renumber l data = Inr data' \<and> all_int_ids data' \<and>
     list_all2 (\<lambda>p p'. p' = (if clean_id p = ID_UNASSIGNED
                               then AList.update ''id'' (JInt (clean_id p')) p else p)) data data' \<and>
     new_ids (map clean_id data) (map clean_id data')
       = [l .. l + int (count_list (map clean_id data) ID_UNASSIGNED) - 1]"
proof (induction data arbitrary: l)
  case Nil
  show ?case by (simp add: all_int_ids_def new_ids_def)
next
  case (Cons p ps)
  from Cons.prems obtain n where n: "map_of p ''id'' = Some (JInt n)" and ps: "all_int_ids ps"
    by (auto simp: all_int_ids_Cons)
  have cid: "clean_id p = n" using n by (simp add: clean_id_def)
  show ?case
  proof (cases "n = ID_UNASSIGNED")
    case True
    from Cons.IH[OF ps, of "l + 1"] obtain ps' where
      r: "renumber (l + 1) ps = Inr ps'" and a: "all_int_ids ps'" and
      l2: "list_all2 (\<lambda>p p'. p' = (if clean_id p = ID_UNASSIGNED
                               then AList.update ''id'' (JInt (clean_id p')) p else p)) ps ps'" and
      nw: "new_ids (map clean_id ps) (map clean_id ps')
             = [l + 1 .. l + 1 + int (count_list (map clean_id ps) ID_UNASSIGNED) - 1]"
      by blast
    let ?p' = "AList.update ''id'' (JInt l) p"
    have 1: "renumber l (p # ps) = Inr (?p' # ps')"
      using n True r by (simp add: py_getitem_def)
    have 2: "all_int_ids (?p' # ps')"
      using a by (simp add: all_int_ids_Cons update_conv')
    have 3: "new_ids (map clean_id (p # ps)) (map clean_id (?p' # ps'))
              = l # [l + 1 .. l + 1 + int (count_list (map clean_id ps) ID_UNASSIGNED) - 1]"
      using nw cid True by (simp add: new_ids_def clean_id_update)
    have 4: "l # [l + 1 .. l + 1 + int (count_list (map clean_id ps) ID_UNASSIGNED) - 1]
              = [l .. l + int (count_list (map clean_id (p # ps)) ID_UNASSIGNED) - 1]"
      using cid True by (simp add: upto_rec1[of l])
    show ?thesis
      using 1 2 3 4 l2 cid True by (simp add: clean_id_update)
  next
    case False
    from Cons.IH[OF ps, of l] obtain ps' where
      r: "renumber l ps = Inr ps'" and a: "all_int_ids ps'" and
      l2: "list_all2 (\<lambda>p p'. p' = (if clean_id p = ID_UNASSIGNED
                               then AList.update ''id'' (JInt (clean_id p')) p else p)) ps ps'" and
      nw: "new_ids (map clean_id ps) (map clean_id ps')
             = [l .. l + int (count_list (map clean_id ps) ID_UNASSIGNED) - 1]"
      by blast
    have 1: "renumber l (p # ps) = Inr (p # ps')"
      using n False r by (simp add: py_getitem_def)
    have 2: "all_int_ids (p # ps')"
      using a n by (simp add: all_int_ids_Cons)
    have 3: "new_ids (map clean_id (p # ps)) (map clean_id (p # ps'))
              = [l .. l + int (count_list (map clean_id (p # ps)) ID_UNASSIGNED) - 1]"
      using nw cid False by (simp add: new_ids_def)
    show ?thesis
      using 1 2 3 l2 cid False by simp
  qed
qed

lemma map_upt_upto: "map (\<lambda>j. l + int j) [0..<k] = [l .. l + int k - 1]"
proof (induction k)
  case 0
  show ?case by simp
next
  case (Suc k)
  have "[l .. l + int (Suc k) - 1] = [l .. l + int k - 1] @ [l + int k]"
    using upto_rec2[of l "l + int k"] by simp
  with Suc show ?case by simp
qed

lemma used_max_ge:
  "o' \<in> set ids \<Longrightarrow> o' \<noteq> ID_UNASSIGNED \<Longrightarrow> o' \<le> used_max ids"
  by (simp add: used_max_def)

lemma auto_number_all_int:
  assumes ai: "all_int_ids data"
    and s: "ID_UNASSIGNED \<in> set (record_ids data)"
    and u: "\<exists>i \<in> set (record_ids data). i \<noteq> ID_UNASSIGNED"
  shows "\<exists>data'. auto_number True (record_ids data) data
            = ([AutoRenumber (used_max (record_ids data) + 1)],
               Inr (AList.delete ID_UNASSIGNED (Counter (record_ids data)), data', True))
          \<and> all_int_ids data'
          \<and> list_all2 (\<lambda>p p'. p' = (if clean_id p = ID_UNASSIGNED
                               then AList.update ''id'' (JInt (clean_id p')) p else p)) data data'
          \<and> new_ids (record_ids data) (record_ids data')
              = [used_max (record_ids data) + 1 ..
                 used_max (record_ids data) + int (count_list (record_ids data) ID_UNASSIGNED)]"
proof -
  let ?ids = "record_ids data"
  let ?c = "AList.delete ID_UNASSIGNED (Counter ?ids)"
  have ids: "?ids = map clean_id data" by (rule record_ids_all_int[OF ai])
  have keys: "set (map fst ?c) = set ?ids - {ID_UNASSIGNED}"
    by (simp add: delete_key_set Counter_keys)
  have flt: "set (filter (\<lambda>i. i \<noteq> ID_UNASSIGNED) ?ids) = set ?ids - {ID_UNASSIGNED}"
    by auto
  from u keys have ne: "map fst ?c \<noteq> []" by (metis Diff_iff empty_iff empty_set insertE)
  have mx: "py_max (map fst ?c) = Inr (used_max ?ids)"
    using py_max_Max[OF ne] keys flt by (simp add: used_max_def)
  from renumber_all_int[OF ai, of "used_max ?ids + 1"] obtain data' where
    r: "renumber (used_max ?ids + 1) data = Inr data'" and a: "all_int_ids data'" and
    l2: "list_all2 (\<lambda>p p'. p' = (if clean_id p = ID_UNASSIGNED
                               then AList.update ''id'' (JInt (clean_id p')) p else p)) data data'" and
    nw: "new_ids (map clean_id data) (map clean_id data')
           = [used_max ?ids + 1 .. used_max ?ids + 1 + int (count_list (map clean_id data) ID_UNASSIGNED) - 1]"
    by blast
  have sk: "ID_UNASSIGNED \<in> fst ` set (Counter ?ids)" using s by (simp add: Counter_keys)
  have 1: "auto_number True ?ids data = ([AutoRenumber (used_max ?ids + 1)], Inr (?c, data', True))"
    using sk mx r by (simp add: auto_number_def Let_def)
  have 2: "new_ids ?ids (record_ids data')
             = [used_max ?ids + 1 .. used_max ?ids + int (count_list ?ids ID_UNASSIGNED)]"
    using nw ids record_ids_all_int[OF a] by (simp add: add.commute add.left_commute)
  from 1 a l2 2 show ?thesis by blast
qed

text \<open>
  Claim C1. Take a registry in which every record has an integer id, at least one id
  differs from the sentinel 255 and at least one id is the sentinel. With automatic
  numbering enabled, the repair step (lines 129 to 139, on the ids collected at line 117)
  returns normally, sets \<^verbatim>\<open>rewrite_data\<close>, leaves every record whose id is not the
  sentinel as it was and changes only the \<^verbatim>\<open>id\<close> of the others. In record order the new
  ids are \<open>m + 1\<close>, \<open>m + 2\<close>, ... where \<open>m\<close> is the largest id other than the sentinel:
  each is greater than every id other than the sentinel that was there before, they
  increase strictly and they are pairwise distinct.
\<close>

theorem auto_number_fresh_ascending:
  assumes "all_int_ids data"
    and "ID_UNASSIGNED \<in> set (record_ids data)"
    and "\<exists>i \<in> set (record_ids data). i \<noteq> ID_UNASSIGNED"
  shows "\<exists>id_counts data'.
           auto_number True (record_ids data) data
             = ([AutoRenumber (used_max (record_ids data) + 1)], Inr (id_counts, data', True))
         \<and> list_all2 (\<lambda>p p'. p' = (if clean_id p = ID_UNASSIGNED
                               then AList.update ''id'' (JInt (clean_id p')) p else p)) data data'
         \<and> new_ids (record_ids data) (record_ids data')
             = map (\<lambda>j. used_max (record_ids data) + 1 + int j)
                   [0 ..< count_list (record_ids data) ID_UNASSIGNED]
         \<and> (\<forall>n \<in> set (new_ids (record_ids data) (record_ids data')).
              \<forall>old \<in> set (record_ids data). old \<noteq> ID_UNASSIGNED \<longrightarrow> old < n)
         \<and> sorted_wrt (<) (new_ids (record_ids data) (record_ids data'))
         \<and> distinct (new_ids (record_ids data) (record_ids data'))"
proof -
  let ?ids = "record_ids data"
  let ?m = "used_max ?ids"
  let ?k = "count_list ?ids ID_UNASSIGNED"
  from auto_number_all_int[OF assms] obtain data' where
    1: "auto_number True ?ids data
          = ([AutoRenumber (?m + 1)], Inr (AList.delete ID_UNASSIGNED (Counter ?ids), data', True))" and
    2: "list_all2 (\<lambda>p p'. p' = (if clean_id p = ID_UNASSIGNED
                               then AList.update ''id'' (JInt (clean_id p')) p else p)) data data'" and
    3: "new_ids ?ids (record_ids data') = [?m + 1 .. ?m + int ?k]"
    by blast
  have 4: "new_ids ?ids (record_ids data') = map (\<lambda>j. ?m + 1 + int j) [0 ..< ?k]"
    using 3 map_upt_upto[of "?m + 1" ?k] by simp
  have 5: "\<forall>n \<in> set (new_ids ?ids (record_ids data')).
              \<forall>old \<in> set ?ids. old \<noteq> ID_UNASSIGNED \<longrightarrow> old < n"
  proof (intro ballI impI)
    fix n old
    assume n: "n \<in> set (new_ids ?ids (record_ids data'))" and o: "old \<in> set ?ids"
      and ne: "old \<noteq> ID_UNASSIGNED"
    from n 3 have "?m + 1 \<le> n" by simp
    moreover from o ne have "old \<le> ?m" by (rule used_max_ge)
    ultimately show "old < n" by linarith
  qed
  have 6: "sorted_wrt (<) (new_ids ?ids (record_ids data'))" using 3 by simp
  have 7: "distinct (new_ids ?ids (record_ids data'))" using 3 by simp
  from 1 2 4 5 6 7 show ?thesis by blast
qed

theorem auto_number_fresh_ascending_witness:
  "all_int_ids [[(''id'', JInt 1)], [(''id'', JInt 255)], [(''id'', JInt 255)]]
   \<and> ID_UNASSIGNED \<in> set (record_ids [[(''id'', JInt 1)], [(''id'', JInt 255)], [(''id'', JInt 255)]])
   \<and> (\<exists>i \<in> set (record_ids [[(''id'', JInt 1)], [(''id'', JInt 255)], [(''id'', JInt 255)]]).
         i \<noteq> ID_UNASSIGNED)
   \<and> (\<exists>id_counts data'.
         auto_number True (record_ids [[(''id'', JInt 1)], [(''id'', JInt 255)], [(''id'', JInt 255)]])
            [[(''id'', JInt 1)], [(''id'', JInt 255)], [(''id'', JInt 255)]]
           = ([AutoRenumber 2], Inr (id_counts, data', True))
       \<and> new_ids [1, 255, 255] (record_ids data') = [2, 3])"
proof -
  let ?D = "[[(''id'', JInt 1)], [(''id'', JInt 255)], [(''id'', JInt (255::int))]]"
  have h1: "all_int_ids ?D" by (simp add: all_int_ids_def)
  have ids: "record_ids ?D = [1, 255, 255]"
    by (simp add: record_ids_def collect_ids_def py_getitem_def)
  have h2: "ID_UNASSIGNED \<in> set (record_ids ?D)" by (simp add: ids ID_UNASSIGNED_def)
  have h3: "\<exists>i \<in> set (record_ids ?D). i \<noteq> ID_UNASSIGNED" by (simp add: ids ID_UNASSIGNED_def)
  have m: "used_max [1, 255, 255] = 1" by (simp add: used_max_def ID_UNASSIGNED_def)
  have k: "count_list [1, 255, 255] ID_UNASSIGNED = 2" by (simp add: ID_UNASSIGNED_def)
  have up: "[0..<2] = [0, 1]" by (simp add: upt_rec)
  have "\<exists>id_counts data'.
         auto_number True (record_ids ?D) ?D = ([AutoRenumber 2], Inr (id_counts, data', True))
       \<and> new_ids [1, 255, 255] (record_ids data') = [2, 3]"
    using auto_number_fresh_ascending[OF h1 h2 h3] unfolding ids m k up by auto
  with h1 h2 h3 show ?thesis by blast
qed

text \<open>
  Claim C10. Under the same conditions the new ids, in record order, are exactly the
  integers from \<open>m + 1\<close> to \<open>m + k\<close>, where \<open>m\<close> is the largest id other than the
  sentinel and \<open>k\<close> the number of records whose id is the sentinel. When 255 lies in
  that range, a record carries the id 255 after the repair.
\<close>

theorem auto_number_consecutive_range:
  assumes "all_int_ids data"
    and "ID_UNASSIGNED \<in> set (record_ids data)"
    and "\<exists>i \<in> set (record_ids data). i \<noteq> ID_UNASSIGNED"
  shows "\<exists>id_counts data'.
           auto_number True (record_ids data) data
             = ([AutoRenumber (used_max (record_ids data) + 1)], Inr (id_counts, data', True))
         \<and> new_ids (record_ids data) (record_ids data')
             = [used_max (record_ids data) + 1 ..
                used_max (record_ids data) + int (count_list (record_ids data) ID_UNASSIGNED)]
         \<and> set (new_ids (record_ids data) (record_ids data'))
             = {used_max (record_ids data) + 1 ..
                used_max (record_ids data) + int (count_list (record_ids data) ID_UNASSIGNED)}
         \<and> length (new_ids (record_ids data) (record_ids data'))
             = count_list (record_ids data) ID_UNASSIGNED
         \<and> (used_max (record_ids data) < ID_UNASSIGNED
              \<and> ID_UNASSIGNED \<le> used_max (record_ids data)
                    + int (count_list (record_ids data) ID_UNASSIGNED)
            \<longrightarrow> ID_UNASSIGNED \<in> set (record_ids data'))"
proof -
  let ?ids = "record_ids data"
  let ?m = "used_max ?ids"
  let ?k = "count_list ?ids ID_UNASSIGNED"
  from auto_number_all_int[OF assms] obtain data' where
    1: "auto_number True ?ids data
          = ([AutoRenumber (?m + 1)], Inr (AList.delete ID_UNASSIGNED (Counter ?ids), data', True))" and
    3: "new_ids ?ids (record_ids data') = [?m + 1 .. ?m + int ?k]"
    by blast
  have 4: "set (new_ids ?ids (record_ids data')) = {?m + 1 .. ?m + int ?k}"
    using 3 by simp
  have 5: "length (new_ids ?ids (record_ids data')) = ?k"
    using 3 by simp
  have sub: "set (new_ids ?ids (record_ids data')) \<subseteq> set (record_ids data')"
    by (auto simp: new_ids_def dest: set_zip_rightD)
  have 6: "?m < ID_UNASSIGNED \<and> ID_UNASSIGNED \<le> ?m + int ?k
            \<longrightarrow> ID_UNASSIGNED \<in> set (record_ids data')"
    using 4 sub by auto
  from 1 3 4 5 6 show ?thesis by blast
qed

theorem auto_number_consecutive_range_witness:
  "all_int_ids [[(''id'', JInt 254)], [(''id'', JInt 255)], [(''id'', JInt 255)]]
   \<and> ID_UNASSIGNED \<in> set (record_ids [[(''id'', JInt 254)], [(''id'', JInt 255)], [(''id'', JInt 255)]])
   \<and> (\<exists>i \<in> set (record_ids [[(''id'', JInt 254)], [(''id'', JInt 255)], [(''id'', JInt 255)]]).
         i \<noteq> ID_UNASSIGNED)
   \<and> (\<exists>id_counts data'.
         auto_number True (record_ids [[(''id'', JInt 254)], [(''id'', JInt 255)], [(''id'', JInt 255)]])
            [[(''id'', JInt 254)], [(''id'', JInt 255)], [(''id'', JInt 255)]]
           = ([AutoRenumber 255], Inr (id_counts, data', True))
       \<and> new_ids [254, 255, 255] (record_ids data') = [255, 256]
       \<and> 255 \<in> set (record_ids data'))"
proof -
  let ?D = "[[(''id'', JInt 254)], [(''id'', JInt 255)], [(''id'', JInt (255::int))]]"
  have h1: "all_int_ids ?D" by (simp add: all_int_ids_def)
  have ids: "record_ids ?D = [254, 255, 255]"
    by (simp add: record_ids_def collect_ids_def py_getitem_def)
  have h2: "ID_UNASSIGNED \<in> set (record_ids ?D)" by (simp add: ids ID_UNASSIGNED_def)
  have h3: "\<exists>i \<in> set (record_ids ?D). i \<noteq> ID_UNASSIGNED" by (simp add: ids ID_UNASSIGNED_def)
  have m: "used_max [254, 255, 255] = 254" by (simp add: used_max_def ID_UNASSIGNED_def)
  have k: "count_list [254, 255, 255] ID_UNASSIGNED = 2" by (simp add: ID_UNASSIGNED_def)
  have up: "[255 .. 256] = [255, 256::int]" by (simp add: upto_rec1)
  have "\<exists>id_counts data'.
         auto_number True (record_ids ?D) ?D = ([AutoRenumber 255], Inr (id_counts, data', True))
       \<and> new_ids [254, 255, 255] (record_ids data') = [255, 256]
       \<and> 255 \<in> set (record_ids data')"
    using auto_number_consecutive_range[OF h1 h2 h3] unfolding ids m k
    by (auto simp: ID_UNASSIGNED_def up)
  with h1 h2 h3 show ?thesis by blast
qed

section \<open>Duplicate detection on integer ids\<close>

lemma count_split:
  "list_all2 (\<lambda>i i'. i \<noteq> ID_UNASSIGNED \<longrightarrow> i' = i) ids ids' \<Longrightarrow>
     count_list ids' v
       = count_list (new_ids ids ids') v + count_list (filter (\<lambda>i. i \<noteq> ID_UNASSIGNED) ids) v"
  by (induction rule: list_all2_induct) (auto simp: new_ids_def)

lemma count_filter_ne:
  "count_list (filter (\<lambda>i. i \<noteq> s) ids) v = (if v = s then 0 else count_list ids v)"
  by (induction ids) auto

lemma kept_ids:
  "list_all2 (\<lambda>p p'. p' = (if clean_id p = ID_UNASSIGNED
                               then AList.update ''id'' (JInt (clean_id p')) p else p)) data data'
   \<Longrightarrow> list_all2 (\<lambda>i i'. i \<noteq> ID_UNASSIGNED \<longrightarrow> i' = i) (map clean_id data) (map clean_id data')"
  by (induction rule: list_all2_induct) auto

lemma collect_ids_all_int:
  "all_int_ids data \<Longrightarrow> collect_ids data = (map clean_id data, [], True, [])"
  by (simp add: collect_ids_def ids_try_all_int)

lemma duplicate_detection_exact:
  assumes ai: "all_int_ids data"
    and ne: "auto \<and> ID_UNASSIGNED \<in> set (record_ids data)
             \<longrightarrow> (\<exists>i \<in> set (record_ids data). i \<noteq> ID_UNASSIGNED)"
  shows "\<exists>ev data' rows rw.
           invariant_checker auto data = (ev, Inr (data', rows, rw))
         \<and> (\<forall>v. count_list rows (duplicate_row v)
                  = (if count_list (record_ids data') v > 1 then 1 else 0))
         \<and> count_list rows pass_row
             = (if \<forall>v. count_list (record_ids data') v \<le> 1 then 1 else 0)"
proof (cases "auto \<and> ID_UNASSIGNED \<in> set (record_ids data)")
  case True
  let ?ids = "record_ids data"
  let ?m = "used_max ?ids"
  let ?k = "count_list ?ids ID_UNASSIGNED"
  let ?c = "AList.delete ID_UNASSIGNED (Counter ?ids)"
  from True ne have u: "\<exists>i \<in> set ?ids. i \<noteq> ID_UNASSIGNED" by blast
  from True have s: "ID_UNASSIGNED \<in> set ?ids" and au: "auto" by simp_all
  from auto_number_all_int[OF ai s u] obtain data' where
    an: "auto_number True ?ids data = ([AutoRenumber (?m + 1)], Inr (?c, data', True))" and
    a': "all_int_ids data'" and
    l2: "list_all2 (\<lambda>p p'. p' = (if clean_id p = ID_UNASSIGNED
                               then AList.update ''id'' (JInt (clean_id p')) p else p)) data data'" and
    nw: "new_ids ?ids (record_ids data') = [?m + 1 .. ?m + int ?k]"
    by blast
  let ?ids' = "record_ids data'"
  have ids: "?ids = map clean_id data" by (rule record_ids_all_int[OF ai])
  have ids': "?ids' = map clean_id data'" by (rule record_ids_all_int[OF a'])
  have cnt: "count_list ?ids' v
               = count_list [?m + 1 .. ?m + int ?k] v
                 + (if v = ID_UNASSIGNED then 0 else count_list ?ids v)" for v
    using count_split[OF kept_ids[OF l2], of v] nw
    by (simp add: ids ids' count_filter_ne)
  have rng: "count_list [?m + 1 .. ?m + int ?k] v
               = (if ?m + 1 \<le> v \<and> v \<le> ?m + int ?k then 1 else 0)" for v
    using distinct_count[of "[?m + 1 .. ?m + int ?k]" v] by simp
  have old: "v \<le> ?m" if "v \<noteq> ID_UNASSIGNED" "count_list ?ids v > 0" for v
  proof -
    from that(2) have "v \<in> set ?ids" using count_notin[of v ?ids] by (cases "v \<in> set ?ids") simp_all
    with that(1) show ?thesis by (simp add: used_max_ge)
  qed
  have key: "count_list ?ids' v > 1 \<longleftrightarrow> v \<noteq> ID_UNASSIGNED \<and> count_list ?ids v > 1" for v
  proof (cases "v \<noteq> ID_UNASSIGNED \<and> count_list ?ids v > 0")
    case True
    with old[of v] have "v \<le> ?m" by simp
    with True cnt[of v] rng[of v] show ?thesis by simp
  next
    case False
    with cnt[of v] rng[of v] show ?thesis by auto
  qed
  have dd: "distinct (id_duplicates ?c)"
    by (rule id_duplicates_distinct) (simp add: distinct_delete Counter_distinct)
  have mem: "v \<in> set (id_duplicates ?c) \<longleftrightarrow> count_list ?ids' v > 1" for v
    using key[of v] by (simp add: id_duplicates_delete_Counter)
  have ic: "invariant_checker auto data
              = ([AutoRenumber (?m + 1)], Inr (data', duplicate_rows ?c True, True))"
    using an au collect_ids_all_int[OF ai]
    by (simp add: invariant_checker_def record_ids_def)
  have 1: "\<forall>v. count_list (duplicate_rows ?c True) (duplicate_row v)
                  = (if count_list ?ids' v > 1 then 1 else 0)"
    by (simp add: duplicate_rows_count[OF dd] mem)
  have "id_duplicates ?c = [] \<longleftrightarrow> (\<forall>v. v \<notin> set (id_duplicates ?c))" by auto
  also have "\<dots> \<longleftrightarrow> (\<forall>v. count_list ?ids' v \<le> 1)" by (simp add: mem not_less)
  finally have 2: "count_list (duplicate_rows ?c True) pass_row
                     = (if \<forall>v. count_list ?ids' v \<le> 1 then 1 else 0)"
    by (simp add: duplicate_rows_pass)
  from ic 1 2 show ?thesis by blast
next
  case False
  let ?ids = "record_ids data"
  let ?c = "Counter ?ids"
  have an: "auto_number auto ?ids data = ([], Inr (?c, data, False))"
    using False by (auto simp: auto_number_def Let_def Counter_keys)
  have dd: "distinct (id_duplicates ?c)"
    by (rule id_duplicates_distinct) (rule Counter_distinct)
  have ic: "invariant_checker auto data = ([], Inr (data, duplicate_rows ?c True, False))"
    using an collect_ids_all_int[OF ai]
    by (simp add: invariant_checker_def record_ids_def)
  have 1: "\<forall>v. count_list (duplicate_rows ?c True) (duplicate_row v)
                  = (if count_list ?ids v > 1 then 1 else 0)"
    by (simp add: duplicate_rows_count[OF dd] id_duplicates_Counter)
  have "id_duplicates ?c = [] \<longleftrightarrow> (\<forall>v. v \<notin> set (id_duplicates ?c))" by auto
  also have "\<dots> \<longleftrightarrow> (\<forall>v. count_list ?ids v \<le> 1)"
    by (simp add: id_duplicates_Counter not_less)
  finally have 2: "count_list (duplicate_rows ?c True) pass_row
                     = (if \<forall>v. count_list ?ids v \<le> 1 then 1 else 0)"
    by (simp add: duplicate_rows_pass)
  from ic 1 2 show ?thesis by blast
qed

section \<open>What the custom tests return\<close>

lemma ids_try_length: "ids_try data = Inr ids \<Longrightarrow> length ids = length data"
  by (induction data arbitrary: ids) (auto split: sum.splits)

lemma renumber_length: "renumber l data = Inr data' \<Longrightarrow> length data' = length data"
  by (induction data arbitrary: l data') (auto split: sum.splits if_splits)

lemma renumber_ids_try:
  "ids_try data = Inr ids \<Longrightarrow> renumber l data = Inr data' \<Longrightarrow> \<exists>ids'. ids_try data' = Inr ids'"
proof (induction data arbitrary: l ids data')
  case Nil
  then show ?case by auto
next
  case (Cons p ps)
  from Cons.prems(1) obtain v n ns where
    v: "py_getitem p ''id'' = Inr v" and n: "py_int v = Inr n" and ns: "ids_try ps = Inr ns"
    by (auto split: sum.splits)
  show ?case
  proof (cases "py_eq_int v ID_UNASSIGNED")
    case True
    with Cons.prems(2) v obtain ps' where
      r: "renumber (l + 1) ps = Inr ps'" and d: "data' = AList.update ''id'' (JInt l) p # ps'"
      by (auto split: sum.splits)
    from Cons.IH[OF ns r] obtain ids' where "ids_try ps' = Inr ids'" by blast
    with d show ?thesis by (simp add: py_getitem_def update_conv')
  next
    case False
    with Cons.prems(2) v obtain ps' where
      r: "renumber l ps = Inr ps'" and d: "data' = p # ps'"
      by (auto split: sum.splits)
    from Cons.IH[OF ns r] obtain ids' where "ids_try ps' = Inr ids'" by blast
    with d v n show ?thesis by simp
  qed
qed

lemma access_loop_result:
  "access_loop rda data = (ev, Inr (data1, rows, rw)) \<Longrightarrow>
     data1 = map (fill_access rda) data
   \<and> rw = (rda \<and> (\<exists>p \<in> set data. \<not> py_in ''access'' p))
   \<and> rows = (if rda then [] else map no_access_row (filter (\<lambda>p. \<not> py_in ''access'' p) data))"
proof (induction data arbitrary: ev data1 rows rw)
  case Nil
  then show ?case by simp
next
  case (Cons p ps)
  from Cons.prems obtain p' e1 r1 w1 evs ps' rows' rw' where
    t: "access_test rda p = Inr (p', e1, r1, w1)" and
    l: "access_loop rda ps = (evs, Inr (ps', rows', rw'))" and
    eq: "data1 = p' # ps'" "rows = r1 @ rows'" "rw = (w1 \<or> rw')"
    by (auto split: sum.splits prod.splits)
  from t have p': "p' = fill_access rda p"
    and w1: "w1 = (rda \<and> \<not> py_in ''access'' p)"
    and r1: "r1 = (if rda \<or> py_in ''access'' p then [] else [no_access_row p])"
    by (auto simp: access_test_def fill_access_def no_access_row_def py_getitem_def py_get_def
             split: if_splits sum.splits option.splits)
  from Cons.IH[OF l] eq p' w1 r1 show ?case by auto
qed

lemma fill_access_id [simp]: "map_of (fill_access rda p) ''id'' = map_of p ''id''"
  by (simp add: fill_access_def update_conv')

lemma ids_try_fill: "ids_try (map (fill_access rda) data) = ids_try data"
  by (induction data) (auto simp: py_getitem_def split: sum.splits option.splits)

lemma id_invalid_fill [simp]: "id_invalid (fill_access rda p) = id_invalid p"
  by (simp add: id_invalid_def)

lemma clean_id_fill [simp]: "clean_id (fill_access rda p) = clean_id p"
  by (simp add: clean_id_def)

lemma invalid_row_fill [simp]: "invalid_row (fill_access rda p) = invalid_row p"
  by (simp add: invalid_row_def py_get_def fill_access_def update_conv')

lemma collect_ids_fill:
  "collect_ids (map (fill_access rda) data)
     = (case collect_ids data of (ids, rows, cp, cl) \<Rightarrow> (ids, rows, cp, map (fill_access rda) cl))"
  by (simp add: collect_ids_def ids_try_fill filter_map comp_def Let_def split: sum.splits)

lemma record_ids_fill: "record_ids (map (fill_access rda) data) = record_ids data"
  by (simp add: record_ids_def collect_ids_fill split: prod.splits)

lemma access_test_returns:
  "py_in ''access'' p \<or> (py_in ''id'' p \<and> py_in ''description'' p) \<Longrightarrow>
     \<exists>r. access_test rda p = Inr r"
  by (auto simp: access_test_def py_in_def py_getitem_def)

lemma access_loop_returns:
  "\<forall>p \<in> set data. py_in ''access'' p \<or> (py_in ''id'' p \<and> py_in ''description'' p) \<Longrightarrow>
     \<exists>ev r. access_loop rda data = (ev, Inr r)"
proof (induction data)
  case Nil
  have "access_loop rda [] = ([], Inr ([], [], False))" by simp
  then show ?case by blast
next
  case (Cons p ps)
  from Cons.prems obtain r where t: "access_test rda p = Inr r"
    using access_test_returns[of p rda] by auto
  from Cons obtain ev r' where l: "access_loop rda ps = (ev, Inr r')" by auto
  obtain p' e1 r1 w1 where r: "r = (p', e1, r1, w1)" by (cases r) auto
  obtain ps' rows' rw' where r': "r' = (ps', rows', rw')" by (cases r') auto
  from t l r r' show ?case by simp
qed

lemma access_loop_total:
  assumes "\<forall>p \<in> set data. py_in ''access'' p \<or> (py_in ''id'' p \<and> py_in ''description'' p)"
  shows "\<exists>ev. access_loop rda data
           = (ev, Inr (map (fill_access rda) data,
                       (if rda then []
                        else map no_access_row (filter (\<lambda>p. \<not> py_in ''access'' p) data)),
                       rda \<and> (\<exists>p \<in> set data. \<not> py_in ''access'' p)))"
proof -
  from access_loop_returns[OF assms, of rda] obtain ev r where
    l: "access_loop rda data = (ev, Inr r)" by blast
  obtain d1 rows rw where r: "r = (d1, rows, rw)" by (cases r) auto
  from access_loop_result[of rda data ev d1 rows rw] l r show ?thesis by auto
qed

lemma invariant_checker_flag:
  "invariant_checker auto d = (ev, Inr (d', rows, rw)) \<Longrightarrow>
     rw = (auto \<and> ID_UNASSIGNED \<in> set (record_ids d))"
  by (auto simp: invariant_checker_def auto_number_def record_ids_def Let_def Counter_keys
           split: prod.splits sum.splits if_splits)

lemma invariant_checker_length:
  "invariant_checker auto d = (ev, Inr (d', rows, rw)) \<Longrightarrow> length d' = length d"
  by (auto simp: invariant_checker_def auto_number_def Let_def renumber_length
           split: prod.splits sum.splits if_splits)

lemma invariant_checker_unchanged:
  "invariant_checker auto d = (ev, Inr (d', rows, False)) \<Longrightarrow> d' = d"
  by (auto simp: invariant_checker_def auto_number_def Let_def
           split: prod.splits sum.splits if_splits)

lemma collect_ids_no_fail:
  "collect_ids d = (ids, rows, cp, cl) \<Longrightarrow> \<not> any_fail rows \<Longrightarrow> ids_try d = Inr ids"
  by (auto simp: collect_ids_def any_fail_def Let_def split: sum.splits)

lemma invariant_checker_no_fail:
  assumes "invariant_checker auto d = (ev, Inr (d', rows, rw))" and "\<not> any_fail rows"
  shows "\<exists>ids. ids_try d' = Inr ids"
proof -
  obtain ids rows2 cp cl where c: "collect_ids d = (ids, rows2, cp, cl)"
    by (cases "collect_ids d") auto
  from assms(1) c obtain ev' idc rw' where
    an: "auto_number auto ids d = (ev', Inr (idc, d', rw'))" and
    rows: "rows = rows2 @ duplicate_rows idc cp"
    by (auto simp: invariant_checker_def split: prod.splits sum.splits)
  from rows assms(2) have "\<not> any_fail rows2" by (auto simp: any_fail_def)
  with c have it: "ids_try d = Inr ids" by (rule collect_ids_no_fail)
  from an have "d' = d \<or> (\<exists>l. renumber l d = Inr d')"
    by (auto simp: auto_number_def Let_def split: if_splits sum.splits)
  with it show ?thesis using renumber_ids_try by blast
qed

lemma custom_tests_result:
  assumes "custom_tests a data = (ev, Inr (data', rows, rw))"
  shows "rw = needs_persist a data" and "length data' = length data"
    and "\<not> any_fail rows \<Longrightarrow> \<exists>ids. ids_try data' = Inr ids"
    and "data' \<noteq> data \<Longrightarrow> needs_persist a data"
proof -
  from assms obtain ev1 data1 rows1 rw1 ev2 rows2 rw2 where
    al: "access_loop (rewrite_default_access a) data = (ev1, Inr (data1, rows1, rw1))" and
    ic: "invariant_checker (rewrite_auto_number_id a) data1 = (ev2, Inr (data', rows2, rw2))" and
    eq: "rows = rows1 @ rows2" "rw = (rw1 \<or> rw2)"
    by (auto simp: custom_tests_def split: prod.splits sum.splits)
  from access_loop_result[OF al] have
    d1: "data1 = map (fill_access (rewrite_default_access a)) data" and
    rw1: "rw1 = (rewrite_default_access a \<and> (\<exists>p \<in> set data. \<not> py_in ''access'' p))"
    by simp_all
  from invariant_checker_flag[OF ic] d1 have
    rw2: "rw2 = (rewrite_auto_number_id a \<and> ID_UNASSIGNED \<in> set (record_ids data))"
    by (simp add: record_ids_fill)
  from eq rw1 rw2 show flag: "rw = needs_persist a data" by (simp add: needs_persist_def)
  from invariant_checker_length[OF ic] d1 show "length data' = length data" by simp
  show "\<exists>ids. ids_try data' = Inr ids" if "\<not> any_fail rows"
  proof -
    from that eq have "\<not> any_fail rows2" by (auto simp: any_fail_def)
    with ic show ?thesis by (rule invariant_checker_no_fail)
  qed
  show "needs_persist a data" if ne: "data' \<noteq> data"
  proof (rule ccontr)
    assume "\<not> needs_persist a data"
    with flag eq have f1: "\<not> rw1" and f2: "\<not> rw2" by auto
    from f1 rw1 d1 have "data1 = data" by (auto simp: fill_access_def intro: map_idI)
    moreover from ic f2 have "data' = data1" by (auto dest: invariant_checker_unchanged)
    ultimately show False using ne by simp
  qed
qed

lemma needs_persist_nonempty: "needs_persist a data \<Longrightarrow> data \<noteq> []"
  by (auto simp: needs_persist_def record_ids_def collect_ids_def)

lemma written_finish:
  "written (finish op rw d out)
     = (if op \<and> rw \<and> (\<exists>ids. ids_try d = Inr ids \<and> ids \<noteq> []) then Some d else None)"
  by (cases "ids_try d"; cases "projr (ids_try d)") (auto simp: finish_def)

section \<open>Persistence\<close>

text \<open>
  Claim C5, as stated, fails: the file is rewritten although no repair changed the
  registry. In the first run the id is the string \<^verbatim>\<open>"255"\<close>, which \<^verbatim>\<open>int\<close> converts to
  the sentinel, so the numbering branch is entered, but no record compares equal to 255
  and none is assigned. In the second run the only free number is 255 itself, so the
  record keeps the id it had. Both runs pass and write the registry back unchanged.
\<close>

theorem rewrite_without_change_counterexample:
  "custom_tests \<lparr>immediate_exit = False, rewrite_default_access = False,
                   rewrite_auto_number_id = True\<rparr>
      [[(''id'', JStr ''255''), (''access'', JObj [])], [(''id'', JInt 1), (''access'', JObj [])]]
     = ([AutoRenumber 2],
        Inr ([[(''id'', JStr ''255''), (''access'', JObj [])], [(''id'', JInt 1), (''access'', JObj [])]],
             [([Lit ''Duplicate IDs''], PASS)], True))
   \<and> written (main \<lparr>immediate_exit = False, rewrite_default_access = False,
                       rewrite_auto_number_id = True\<rparr>
        (Some [[(''id'', JStr ''255''), (''access'', JObj [])], [(''id'', JInt 1), (''access'', JObj [])]])
        (Some []))
     = Some [[(''id'', JStr ''255''), (''access'', JObj [])], [(''id'', JInt 1), (''access'', JObj [])]]
   \<and> written (main \<lparr>immediate_exit = False, rewrite_default_access = False,
                       rewrite_auto_number_id = True\<rparr>
        (Some [[(''id'', JInt 254), (''access'', JObj [])], [(''id'', JInt 255), (''access'', JObj [])]])
        (Some []))
     = Some [[(''id'', JInt 254), (''access'', JObj [])], [(''id'', JInt 255), (''access'', JObj [])]]"
  by (simp add: run_defs int_of_str_def is_space_def digit_of_def digits_within_limit_def max_str_digits_def)

text \<open>
  Claim C5, amended. The registry file is rewritten exactly when \<^verbatim>\<open>rewrite_data\<close> is set
  and the run passes: the custom tests ran to their end, no schema violation was found
  and no custom row is a FAIL. The file then receives the repaired registry. The flag is
  set exactly when the backfill filled a record or the numbering branch was entered
  (\<open>needs_persist\<close>), whether or not the content changed; every change of the registry
  sets it. Repairs made before an exit with failure status, immediate or not, are not
  written. The write is that of lines 168 to 171, which precedes the emitters.
\<close>

theorem persisted_iff_flag_and_pass:
  "written (main a (Some data) (Some error_rows))
     = (case custom_tests a data of
          (ev, Inl e) \<Rightarrow> None
        | (ev, Inr (data', rows, rw)) \<Rightarrow>
            if needs_persist a data \<and> error_rows = [] \<and> \<not> any_fail rows
            then Some data' else None)
   \<and> (\<forall>ev data' rows rw. custom_tests a data = (ev, Inr (data', rows, rw)) \<longrightarrow> data' \<noteq> data
         \<longrightarrow> needs_persist a data)"
proof
  show "written (main a (Some data) (Some error_rows))
     = (case custom_tests a data of
          (ev, Inl e) \<Rightarrow> None
        | (ev, Inr (data', rows, rw)) \<Rightarrow>
            if needs_persist a data \<and> error_rows = [] \<and> \<not> any_fail rows
            then Some data' else None)"
  proof (cases "custom_tests a data")
    case (Pair ev res)
    show ?thesis
    proof (cases res)
      case (Inl e)
      with Pair show ?thesis by (simp add: main_def Let_def)
    next
      case (Inr t)
      obtain data' rows rw where t: "t = (data', rows, rw)" by (cases t) auto
      with Pair Inr have ct: "custom_tests a data = (ev, Inr (data', rows, rw))" by simp
      note r = custom_tests_result[OF ct]
      have ok: "\<exists>ids. ids_try data' = Inr ids \<and> ids \<noteq> []"
        if "needs_persist a data" "\<not> any_fail rows"
      proof -
        from r(3)[OF that(2)] obtain ids where i: "ids_try data' = Inr ids" by blast
        from that(1) have "data \<noteq> []" by (rule needs_persist_nonempty)
        with r(2) ids_try_length[OF i] have "ids \<noteq> []" by auto
        with i show ?thesis by blast
      qed
      show ?thesis
        using ct r(1) ok by (auto simp: main_def Let_def written_finish)
    qed
  qed
next
  show "\<forall>ev data' rows rw. custom_tests a data = (ev, Inr (data', rows, rw)) \<longrightarrow> data' \<noteq> data
         \<longrightarrow> needs_persist a data"
    using custom_tests_result(4) by blast
qed

theorem persisted_iff_flag_and_pass_witness:
  "needs_persist \<lparr>immediate_exit = False, rewrite_default_access = True,
                   rewrite_auto_number_id = False\<rparr>
      [[(''id'', JInt 7), (''description'', JStr ''depth'')]]
   \<and> written (main \<lparr>immediate_exit = False, rewrite_default_access = True,
                       rewrite_auto_number_id = False\<rparr>
        (Some [[(''id'', JInt 7), (''description'', JStr ''depth'')]]) (Some []))
     = Some [[(''id'', JInt 7), (''description'', JStr ''depth''),
              (''access'', JObj [(''dry'', JObj [(''read'', JBool True)]),
                                 (''wet'', JObj [(''read'', JBool True)])])]]
   \<and> written (main \<lparr>immediate_exit = False, rewrite_default_access = True,
                       rewrite_auto_number_id = False\<rparr>
        (Some [[(''id'', JInt 7), (''description'', JStr ''depth'')]])
        (Some [(''0'', ''name is a required property'', ''{}'')]))
     = None"
proof -
  let ?a = "\<lparr>immediate_exit = False, rewrite_default_access = True,
             rewrite_auto_number_id = False\<rparr>"
  let ?D = "[[(''id'', JInt 7), (''description'', JStr ''depth'')]]"
  have np: "needs_persist ?a ?D" by (simp add: needs_persist_def py_in_def)
  have ct: "custom_tests ?a ?D
     = ([AddingDefault (JInt 7) (JStr ''depth'')],
        Inr ([[(''id'', JInt 7), (''description'', JStr ''depth''), (''access'', default_access)]],
             [([Lit ''Duplicate IDs''], PASS)], True))"
    by (simp add: custom_tests_def invariant_checker_def collect_ids_def auto_number_def
          access_test_def py_in_def py_getitem_def Counter_def ID_UNASSIGNED_def
          duplicate_rows_def id_duplicates_def pass_row_def)
  have nf: "\<not> any_fail [([Lit ''Duplicate IDs''], PASS)]" by (simp add: any_fail_def)
  show ?thesis
    using persisted_iff_flag_and_pass[of ?a ?D "[]"]
          persisted_iff_flag_and_pass[of ?a ?D "[(''0'', ''name is a required property'', ''{}'')]"]
          np nf
    by (simp add: ct default_access_def)
qed

section \<open>Immediate exit\<close>

text \<open>
  Claim C4, as stated, fails: in immediate-exit mode the run below records a failing
  access check on its first record and still goes on to the duplicate check, which fails
  as well; the process exits only after the whole custom table has been printed.
\<close>

theorem immediate_exit_runs_later_checks_counterexample:
  "main \<lparr>immediate_exit = True, rewrite_default_access = False, rewrite_auto_number_id = False\<rparr>
     (Some [[(''id'', JInt 5), (''description'', JStr ''a'')],
            [(''id'', JInt 5), (''description'', JStr ''b''), (''access'', JObj [])]])
     (Some [])
   = \<lparr>outcome = SysExit 1,
      stdout = [SchemaHeader, SchemaValidated, CustomHeader,
                CustomTable
                  [([Lit ''No access specified for parameter '', Fmt (JInt 5), Lit '':'',
                     Fmt (JStr ''a'')], FAIL),
                   ([Lit ''Duplicate ID '', Fmt (JInt 5)], FAIL)]],
      written = None, emit = None\<rparr>"
  by (simp add: run_defs)

lemma invariant_checker_rows:
  "invariant_checker auto d = (ev, Inr (d', rows, rw)) \<Longrightarrow>
     rows = fst (snd (collect_ids d))
            @ duplicate_rows
                (if auto \<and> ID_UNASSIGNED \<in> set (record_ids d)
                 then AList.delete ID_UNASSIGNED (Counter (record_ids d))
                 else Counter (record_ids d))
                (fst (snd (snd (collect_ids d))))"
  by (auto simp: invariant_checker_def auto_number_def record_ids_def Let_def Counter_keys
           split: prod.splits sum.splits if_splits)

lemma custom_tests_rows:
  assumes "custom_tests a data = (ev, Inr (data', rows, rw))"
  shows "rows = all_custom_rows a data"
proof -
  from assms obtain ev1 data1 rows1 rw1 ev2 rows2 rw2 where
    al: "access_loop (rewrite_default_access a) data = (ev1, Inr (data1, rows1, rw1))" and
    ic: "invariant_checker (rewrite_auto_number_id a) data1 = (ev2, Inr (data', rows2, rw2))" and
    eq: "rows = rows1 @ rows2"
    by (auto simp: custom_tests_def split: prod.splits sum.splits)
  from access_loop_result[OF al] have
    d1: "data1 = map (fill_access (rewrite_default_access a)) data" and
    r1: "rows1 = (if rewrite_default_access a then []
                  else map no_access_row (filter (\<lambda>p. \<not> py_in ''access'' p) data))"
    by simp_all
  have c: "fst (snd (collect_ids data1)) = fst (snd (collect_ids data))"
          "fst (snd (snd (collect_ids data1))) = fst (snd (snd (collect_ids data)))"
    by (simp_all add: d1 collect_ids_fill split: prod.splits)
  have r: "record_ids data1 = record_ids data" by (simp add: d1 record_ids_fill)
  from invariant_checker_rows[OF ic] eq r1 c r show ?thesis
    by (simp add: all_custom_rows_def)
qed

lemma custom_tests_ignores_exit:
  "custom_tests (a\<lparr>immediate_exit := b\<rparr>) data = custom_tests a data"
proof -
  have 1: "rewrite_default_access (a\<lparr>immediate_exit := b\<rparr>) = rewrite_default_access a"
    by simp
  have 2: "rewrite_auto_number_id (a\<lparr>immediate_exit := b\<rparr>) = rewrite_auto_number_id a"
    by simp
  show ?thesis unfolding custom_tests_def 1 2 by (rule refl)
qed

lemma all_custom_rows_no_access:
  "p \<in> set data \<Longrightarrow> \<not> rewrite_default_access a \<Longrightarrow> \<not> py_in ''access'' p \<Longrightarrow>
     no_access_row p \<in> set (all_custom_rows a data)"
  by (simp add: all_custom_rows_def)

lemma all_custom_rows_invalid:
  "ids_try data = Inl e \<Longrightarrow> p \<in> set data \<Longrightarrow> id_invalid p \<Longrightarrow>
     invalid_row p \<in> set (all_custom_rows a data)"
  by (simp add: all_custom_rows_def collect_ids_def Let_def)

lemma all_custom_rows_duplicate:
  assumes "count_list (record_ids data) v > 1"
    and "\<not> (rewrite_auto_number_id a \<and> v = ID_UNASSIGNED)"
  shows "duplicate_row v \<in> set (all_custom_rows a data)"
proof -
  let ?c = "if rewrite_auto_number_id a \<and> ID_UNASSIGNED \<in> set (record_ids data)
            then AList.delete ID_UNASSIGNED (Counter (record_ids data))
            else Counter (record_ids data)"
  from assms have "v \<in> set (id_duplicates ?c)"
    by (auto simp: id_duplicates_Counter id_duplicates_delete_Counter)
  then have "duplicate_row v \<in> set (duplicate_rows ?c (fst (snd (snd (collect_ids data)))))"
    by (simp add: duplicate_rows_def)
  then show ?thesis unfolding all_custom_rows_def by simp
qed

text \<open>
  Claim C4, amended. In immediate-exit mode the process exits with failure status at
  the end of the first failing pass. A schema violation ends the run right after the
  schema report, before any custom test, whatever the registry holds. When the schema
  pass is clean and the custom tests run to their end with a FAIL among their rows, the
  run ends only after every custom test has run and the complete custom table has been
  printed: the table holds the rows of all custom tests (\<open>all_custom_rows\<close>), the same
  as without the flag, with a row for every record without access (backfill off), for
  every record dropped by the id check and for every duplicated id. In both cases
  nothing is written back and nothing is handed to the emitters.
\<close>

theorem immediate_exit_after_failing_pass:
  assumes "immediate_exit a"
  shows "(error_rows \<noteq> [] \<longrightarrow>
            main a (Some data) (Some error_rows)
              = \<lparr>outcome = SysExit 1,
                 stdout = [SchemaHeader, SchemaTable error_rows, SchemaFailed],
                 written = None, emit = None\<rparr>)
       \<and> (error_rows = [] \<longrightarrow> custom_tests a data = (ev, Inr (data', rows, rw)) \<longrightarrow> any_fail rows \<longrightarrow>
            main a (Some data) (Some error_rows)
              = \<lparr>outcome = SysExit 1,
                 stdout = [SchemaHeader, SchemaValidated] @ ev
                          @ [CustomHeader, CustomTable (all_custom_rows a data)],
                 written = None, emit = None\<rparr>
            \<and> rows = all_custom_rows a data
            \<and> custom_tests (a\<lparr>immediate_exit := False\<rparr>) data = (ev, Inr (data', rows, rw))
            \<and> (\<forall>p \<in> set data. \<not> rewrite_default_access a \<longrightarrow> \<not> py_in ''access'' p
                  \<longrightarrow> no_access_row p \<in> set rows)
            \<and> (\<forall>p \<in> set data. (\<exists>e. ids_try data = Inl e) \<longrightarrow> id_invalid p
                  \<longrightarrow> invalid_row p \<in> set rows)
            \<and> (\<forall>v. count_list (record_ids data) v > 1
                  \<longrightarrow> \<not> (rewrite_auto_number_id a \<and> v = ID_UNASSIGNED)
                  \<longrightarrow> duplicate_row v \<in> set rows))"
proof (intro conjI impI)
  assume "error_rows \<noteq> []"
  with assms show "main a (Some data) (Some error_rows)
              = \<lparr>outcome = SysExit 1,
                 stdout = [SchemaHeader, SchemaTable error_rows, SchemaFailed],
                 written = None, emit = None\<rparr>"
    by (simp add: main_def Let_def)
next
  assume e: "error_rows = []" and ct: "custom_tests a data = (ev, Inr (data', rows, rw))"
    and af: "any_fail rows"
  have rows: "rows = all_custom_rows a data" by (rule custom_tests_rows[OF ct])
  from assms e ct af rows show "main a (Some data) (Some error_rows)
              = \<lparr>outcome = SysExit 1,
                 stdout = [SchemaHeader, SchemaValidated] @ ev
                          @ [CustomHeader, CustomTable (all_custom_rows a data)],
                 written = None, emit = None\<rparr>"
    by (simp add: main_def Let_def)
  show "rows = all_custom_rows a data" by (rule rows)
  show "custom_tests (a\<lparr>immediate_exit := False\<rparr>) data = (ev, Inr (data', rows, rw))"
    using ct by (simp add: custom_tests_ignores_exit)
  show "\<forall>p \<in> set data. \<not> rewrite_default_access a \<longrightarrow> \<not> py_in ''access'' p
                  \<longrightarrow> no_access_row p \<in> set rows"
    unfolding rows using all_custom_rows_no_access by blast
  show "\<forall>p \<in> set data. (\<exists>e. ids_try data = Inl e) \<longrightarrow> id_invalid p
                  \<longrightarrow> invalid_row p \<in> set rows"
    unfolding rows using all_custom_rows_invalid by blast
  show "\<forall>v. count_list (record_ids data) v > 1
                  \<longrightarrow> \<not> (rewrite_auto_number_id a \<and> v = ID_UNASSIGNED)
                  \<longrightarrow> duplicate_row v \<in> set rows"
    unfolding rows using all_custom_rows_duplicate by blast
qed

theorem immediate_exit_after_failing_pass_witness:
  "immediate_exit \<lparr>immediate_exit = True, rewrite_default_access = False,
                    rewrite_auto_number_id = False\<rparr>
   \<and> main \<lparr>immediate_exit = True, rewrite_default_access = False, rewrite_auto_number_id = False\<rparr>
        (Some [[(''id'', JInt 7), (''description'', JStr ''depth'')]])
        (Some [(''0'', ''name is a required property'', ''{}'')])
      = \<lparr>outcome = SysExit 1,
         stdout = [SchemaHeader, SchemaTable [(''0'', ''name is a required property'', ''{}'')],
                   SchemaFailed],
         written = None, emit = None\<rparr>
   \<and> main \<lparr>immediate_exit = True, rewrite_default_access = False, rewrite_auto_number_id = False\<rparr>
        (Some [[(''id'', JInt 5), (''description'', JStr ''a'')],
               [(''id'', JInt 5), (''description'', JStr ''b'')]]) (Some [])
      = \<lparr>outcome = SysExit 1,
         stdout = [SchemaHeader, SchemaValidated, CustomHeader,
                   CustomTable
                     [([Lit ''No access specified for parameter '', Fmt (JInt 5), Lit '':'',
                        Fmt (JStr ''a'')], FAIL),
                      ([Lit ''No access specified for parameter '', Fmt (JInt 5), Lit '':'',
                        Fmt (JStr ''b'')], FAIL),
                      ([Lit ''Duplicate ID '', Fmt (JInt 5)], FAIL)]],
         written = None, emit = None\<rparr>"
proof -
  let ?a = "\<lparr>immediate_exit = True, rewrite_default_access = False,
             rewrite_auto_number_id = False\<rparr>"
  let ?D1 = "[[(''id'', JInt 7), (''description'', JStr ''depth'')]]"
  let ?D = "[[(''id'', JInt 5), (''description'', JStr ''a'')],
             [(''id'', JInt 5), (''description'', JStr ''b'')]]"
  let ?rows = "[([Lit ''No access specified for parameter '', Fmt (JInt 5), Lit '':'',
                  Fmt (JStr ''a'')], FAIL),
                ([Lit ''No access specified for parameter '', Fmt (JInt 5), Lit '':'',
                  Fmt (JStr ''b'')], FAIL),
                ([Lit ''Duplicate ID '', Fmt (JInt 5)], FAIL)]"
  have h: "immediate_exit ?a" by simp
  have ct: "custom_tests ?a ?D = ([], Inr (?D, ?rows, False))"
    by (simp add: custom_tests_def invariant_checker_def collect_ids_def auto_number_def
          access_test_def py_in_def py_getitem_def Counter_def ID_UNASSIGNED_def
          duplicate_rows_def id_duplicates_def duplicate_row_def pass_row_def)
  have af: "any_fail ?rows" by (simp add: any_fail_def)
  have e1: "[(''0'', ''name is a required property'', ''{}'')] \<noteq> ([] :: violation list)" by simp
  note t1 = immediate_exit_after_failing_pass[OF h,
      where error_rows = "[(''0'', ''name is a required property'', ''{}'')]" and data = ?D1,
      THEN conjunct1, rule_format, OF e1]
  note t2 = immediate_exit_after_failing_pass[OF h,
      where error_rows = "[]" and data = ?D and ev = "[]" and data' = ?D and rows = ?rows
        and rw = False,
      THEN conjunct2, rule_format, OF refl ct af]
  from t2 have m: "main ?a (Some ?D) (Some [])
              = \<lparr>outcome = SysExit 1,
                 stdout = [SchemaHeader, SchemaValidated] @ []
                          @ [CustomHeader, CustomTable (all_custom_rows ?a ?D)],
                 written = None, emit = None\<rparr>"
    and r: "?rows = all_custom_rows ?a ?D"
    by blast+
  from m have 2: "main ?a (Some ?D) (Some [])
              = \<lparr>outcome = SysExit 1,
                 stdout = [SchemaHeader, SchemaValidated, CustomHeader, CustomTable ?rows],
                 written = None, emit = None\<rparr>"
    unfolding r[symmetric] by simp
  from h t1 2 show ?thesis by blast
qed

section \<open>Runs that end in an exception\<close>

text \<open>
  Claim C3. The code does not treat the maximum of an empty set of used ids as -1: when
  every id is the sentinel and automatic numbering is enabled, \<^verbatim>\<open>max\<close> is applied to
  an empty sequence at line 132 and raises, before any id is assigned. Nothing catches
  the exception, so the run ends with it.
\<close>

theorem all_sentinel_max_raises:
  "auto_number True [255] [[(''id'', JInt 255), (''access'', JObj [])]] = ([], Inl ValueError)
   \<and> main \<lparr>immediate_exit = False, rewrite_default_access = False, rewrite_auto_number_id = True\<rparr>
        (Some [[(''id'', JInt 255), (''access'', JObj [])]]) (Some [])
      = \<lparr>outcome = Uncaught ValueError, stdout = [SchemaHeader, SchemaValidated],
         written = None, emit = None\<rparr>"
  by (simp add: run_defs)

text \<open>
  Claim C2. On a registry of two records that both carry the sentinel, with automatic
  numbering enabled, the checker (lines 113 to 147) raises at line 132 and emits no row
  at all: neither a duplicate row nor the success row. On every other registry of
  integer ids the rows are exactly those of the claim (\<open>duplicate_detection_exact\<close>).
\<close>

theorem duplicate_check_not_reached:
  "invariant_checker True
     [[(''id'', JInt 255), (''access'', JObj [])], [(''id'', JInt 255), (''access'', JObj [])]]
   = ([], Inl ValueError)"
  by (simp add: run_defs)

text \<open>
  Claim C6. A record without \<^verbatim>\<open>access\<close> and without \<^verbatim>\<open>description\<close> is not given
  the default access when the backfill is enabled: the message of line 105 is formatted
  first and \<^verbatim>\<open>param['description']\<close> raises. With the backfill disabled line 109
  raises in the same way and no failure row is recorded. When every record without
  \<^verbatim>\<open>access\<close> has both fields the loop does what the claim says (\<open>access_loop_total\<close>).
\<close>

theorem backfill_raises_on_missing_description:
  "access_loop True [[(''id'', JInt 7), (''name'', JStr ''DEPTH'')]]
     = ([], Inl (KeyError ''description''))
   \<and> access_loop False [[(''id'', JInt 7), (''name'', JStr ''DEPTH'')]]
     = ([], Inl (KeyError ''description''))"
  by (simp add: run_defs)

text \<open>
  Claim C7. The clean-up reports the record without \<^verbatim>\<open>id\<close> and keeps the two
  others, but the numbering loop then runs over all records, not over the clean subset:
  on the record that has no \<^verbatim>\<open>id\<close>, line 136 raises. The last equation shows an id
  that is a string of digits: \<^verbatim>\<open>int\<close> converts it, so it is not reported.
\<close>

theorem renumbering_ignores_clean_subset:
  "invariant_checker True
     [[(''name'', JStr ''A''), (''access'', JObj [])],
      [(''id'', JInt 255), (''access'', JObj [])],
      [(''id'', JInt 1), (''access'', JObj [])]]
   = ([AutoRenumber 2], Inl (KeyError ''id''))
   \<and> collect_ids
       [[(''name'', JStr ''A''), (''access'', JObj [])],
        [(''id'', JInt 255), (''access'', JObj [])],
        [(''id'', JInt 1), (''access'', JObj [])]]
     = ([255, 1],
        [([Lit ''Invalid ID in parameter, should result in schema fail above''], FAIL),
         ([Lit '' -- Invalid ID in '', Fmt JNull, Lit '':'', Fmt (JStr ''A''), Lit '' ('',
           Fmt JNull, Lit '')''], FAIL)],
        False,
        [[(''id'', JInt 255), (''access'', JObj [])], [(''id'', JInt 1), (''access'', JObj [])]])
   \<and> collect_ids [[(''id'', JStr ''5''), (''access'', JObj [])]] = ([5], [], True, [])"
  by (simp add: run_defs int_of_str_def is_space_def digit_of_def digits_within_limit_def max_str_digits_def)

text \<open>
  Claim C8. Exceptions do reach the top level. A registry without records passes both
  passes and then \<^verbatim>\<open>max(ids)\<close> raises at line 164. A record without \<^verbatim>\<open>id\<close> and
  without \<^verbatim>\<open>access\<close> makes line 109 raise before the custom table is printed.
\<close>

theorem exceptions_reach_top_level:
  "main \<lparr>immediate_exit = False, rewrite_default_access = False, rewrite_auto_number_id = False\<rparr>
     (Some []) (Some [])
   = \<lparr>outcome = Uncaught ValueError,
      stdout = [SchemaHeader, SchemaValidated, CustomHeader,
                CustomTable [([Lit ''Duplicate IDs''], PASS)], CustomPass, ParamsDefined 0],
      written = None, emit = None\<rparr>
   \<and> main \<lparr>immediate_exit = False, rewrite_default_access = False, rewrite_auto_number_id = False\<rparr>
       (Some [[(''name'', JStr ''A'')]]) (Some [(''0'', ''id is a required property'', ''{}'')])
     = \<lparr>outcome = Uncaught (KeyError ''id''),
        stdout = [SchemaHeader, SchemaTable [(''0'', ''id is a required property'', ''{}'')],
                  SchemaFailed],
        written = None, emit = None\<rparr>"
  by (simp add: run_defs)

section \<open>Access cells of the CSV export\<close>

lemma access_cell_objects:
  assumes "map_of p ''access'' = Some (JObj acc)"
    and "map_of acc ''dry'' = Some (JObj d)"
    and "map_of acc iface = Some (JObj x)"
  shows "access_cell p iface dir
           = Inr (if \<not> (case map_of x dir of None \<Rightarrow> False | Some v \<Rightarrow> truthy v) then []
                  else (if truthy (py_get d (dir @ ''_option'') (JBool False)) then ''Opt '' else [])
                       @ (if truthy (py_get d (dir @ ''_auth'') (JBool False)) then ''Auth''
                          else (if truthy (py_get d (dir @ ''_option'') (JBool False)) then []
                                else ''Yes'')))"
  using assms
  by (auto simp: access_cell_def access_set_def dry_flag_def py_get_def py_getitem_def py_in_def
           split: option.splits)

lemma access_cell_absent:
  assumes "map_of p ''access'' = None \<or>
           (\<exists>acc. map_of p ''access'' = Some (JObj acc) \<and> map_of acc iface = None)"
  shows "access_cell p iface dir = Inr []"
  using assms
  by (auto simp: access_cell_def access_set_def py_get_def py_in_def)

text \<open>
  Claim C9. A record whose access object has no \<^verbatim>\<open>dry\<close> entry, with a direction set
  under \<^verbatim>\<open>wet\<close>, gets no cell at all: line 256 subscripts \<^verbatim>\<open>p['access']['dry']\<close> and
  raises.
\<close>

theorem csv_cell_raises_without_dry:
  "csv_access [(''id'', JInt 1), (''access'', JObj [(''wet'', JObj [(''read'', JBool True)])])]
     = Inl (KeyError ''dry'')"
  by (simp add: csv_access_def access_cell_def access_set_def dry_flag_def py_get_def
        py_getitem_def py_in_def)

end
